theory Spec2Isabelle
  imports Main "HOL-Library.Word"
begin

section \<open>Memory model\<close>

text \<open>
  The list library works on three kinds of heap objects: nodes (\<open>list_node_t\<close>), payload
  holders (\<open>list_data_t\<close>) and raw byte buffers. The store keeps one partial map per kind;
  a pointer is an optional address, \<open>None\<close> being \<open>NULL\<close>.  Caller buffers live in the
  same byte store as the payload copies owned by the list, so aliasing between them can
  be expressed.

  \<open>size_t\<close> counters are modelled by \<open>nat\<close>: the nodes of a list occupy pairwise different
  addresses, so a length never reaches the wrap-around point of the machine type.
\<close>

type_synonym addr = nat
type_synonym byte = "8 word"

text \<open>
  A run that does not return normally ends in one of two ways: an access the C standard
  leaves undefined (a load or store through \<open>NULL\<close> or a freed pointer, an access beyond
  the end of a buffer, a \<open>free\<close> of a block that is not allocated), or a failing \<open>assert\<close>.
\<close>

datatype error = Undefined | AssertFailed

text \<open>
  Modelled from the spec: the declarations of \<open>list_data_t\<close> and \<open>list_node_t\<close>, which are
  in the header \<open>list.h\<close>.  A payload holder owns a byte buffer and records its length;
  a node has a payload holder, a back-relation and a forward relation.  The field names
  are the ones \<open>list.c\<close> uses (\<open>size_d\<close> stands for the field \<open>size\<close>).
\<close>

record list_data_t =
  payload :: "addr option"
  size_d :: nat

record list_node_t =
  data :: "addr option"
  prev :: "addr option"
  "next" :: "addr option"

text \<open>
  \<open>brk\<close> is the next address the allocator hands out, \<open>avail\<close> the number of allocations
  that will still succeed, and \<open>junk\<close> the content of memory that has been allocated but
  not yet written.
\<close>

record heap =
  nodes :: "addr \<rightharpoonup> list_node_t"
  datas :: "addr \<rightharpoonup> list_data_t"
  bufs :: "addr \<rightharpoonup> byte list"
  brk :: addr
  avail :: nat
  junk :: byte

text \<open>
  \<open>malloc\<close>, one function per object kind.  The fields of a fresh struct are
  indeterminate in C; the model fills pointer fields with \<open>None\<close>, so that a read of a
  field the program never assigned shows up as a fault when it is dereferenced.  A
  request for 0 bytes is served like any other and returns a fresh, empty block.
\<close>

definition malloc_node :: "heap \<Rightarrow> addr option \<times> heap" where
  "malloc_node s =
     (if avail s = 0 then (None, s)
      else (Some (brk s),
            s\<lparr>nodes := (nodes s)(brk s \<mapsto> \<lparr>data = None, prev = None, next = None\<rparr>),
              brk := brk s + 1, avail := avail s - 1\<rparr>))"

definition malloc_data :: "heap \<Rightarrow> addr option \<times> heap" where
  "malloc_data s =
     (if avail s = 0 then (None, s)
      else (Some (brk s),
            s\<lparr>datas := (datas s)(brk s \<mapsto> \<lparr>payload = None, size_d = 0\<rparr>),
              brk := brk s + 1, avail := avail s - 1\<rparr>))"

definition malloc_buf :: "heap \<Rightarrow> nat \<Rightarrow> addr option \<times> heap" where
  "malloc_buf s n =
     (if avail s = 0 then (None, s)
      else (Some (brk s),
            s\<lparr>bufs := (bufs s)(brk s \<mapsto> replicate n (junk s)),
              brk := brk s + 1, avail := avail s - 1\<rparr>))"

text \<open>\<open>free\<close>: a no-op on \<open>NULL\<close>, a fault on a pointer that is not allocated.\<close>

definition free_node_mem :: "heap \<Rightarrow> addr option \<Rightarrow> error + heap" where
  "free_node_mem s p =
     (case p of None \<Rightarrow> Inr s
      | Some a \<Rightarrow> (case nodes s a of None \<Rightarrow> Inl Undefined
                   | Some _ \<Rightarrow> Inr (s\<lparr>nodes := (nodes s)(a := None)\<rparr>)))"

definition free_data :: "heap \<Rightarrow> addr option \<Rightarrow> error + heap" where
  "free_data s p =
     (case p of None \<Rightarrow> Inr s
      | Some a \<Rightarrow> (case datas s a of None \<Rightarrow> Inl Undefined
                   | Some _ \<Rightarrow> Inr (s\<lparr>datas := (datas s)(a := None)\<rparr>)))"

definition free_buf :: "heap \<Rightarrow> addr option \<Rightarrow> error + heap" where
  "free_buf s p =
     (case p of None \<Rightarrow> Inr s
      | Some a \<Rightarrow> (case bufs s a of None \<Rightarrow> Inl Undefined
                   | Some _ \<Rightarrow> Inr (s\<lparr>bufs := (bufs s)(a := None)\<rparr>)))"

text \<open>Loads and stores through a pointer fault on \<open>NULL\<close> and on dangling pointers.\<close>

definition node_at :: "heap \<Rightarrow> addr option \<Rightarrow> error + list_node_t" where
  "node_at s p =
     (case p of None \<Rightarrow> Inl Undefined
      | Some a \<Rightarrow> (case nodes s a of None \<Rightarrow> Inl Undefined | Some n \<Rightarrow> Inr n))"

definition data_at :: "heap \<Rightarrow> addr option \<Rightarrow> error + list_data_t" where
  "data_at s p =
     (case p of None \<Rightarrow> Inl Undefined
      | Some a \<Rightarrow> (case datas s a of None \<Rightarrow> Inl Undefined | Some d \<Rightarrow> Inr d))"

definition buf_at :: "heap \<Rightarrow> addr option \<Rightarrow> error + byte list" where
  "buf_at s p =
     (case p of None \<Rightarrow> Inl Undefined
      | Some a \<Rightarrow> (case bufs s a of None \<Rightarrow> Inl Undefined | Some b \<Rightarrow> Inr b))"

definition upd_node ::
  "heap \<Rightarrow> addr option \<Rightarrow> (list_node_t \<Rightarrow> list_node_t) \<Rightarrow> error + heap" where
  "upd_node s p f =
     (case p of None \<Rightarrow> Inl Undefined
      | Some a \<Rightarrow> (case nodes s a of None \<Rightarrow> Inl Undefined
                   | Some n \<Rightarrow> Inr (s\<lparr>nodes := (nodes s)(a \<mapsto> f n)\<rparr>)))"

definition upd_data ::
  "heap \<Rightarrow> addr option \<Rightarrow> (list_data_t \<Rightarrow> list_data_t) \<Rightarrow> error + heap" where
  "upd_data s p f =
     (case p of None \<Rightarrow> Inl Undefined
      | Some a \<Rightarrow> (case datas s a of None \<Rightarrow> Inl Undefined
                   | Some d \<Rightarrow> Inr (s\<lparr>datas := (datas s)(a \<mapsto> f d)\<rparr>)))"

definition bindE :: "error + 'a \<Rightarrow> ('a \<Rightarrow> error + 'b) \<Rightarrow> error + 'b" where
  "bindE m f = (case m of Inl e \<Rightarrow> Inl e | Inr x \<Rightarrow> f x)"

text \<open>
  \<open>memcpy dst src n\<close> and \<open>memcmp p q n\<close> access \<open>n\<close> bytes of both objects; either object
  being shorter is an out-of-bounds access.  \<open>memcmp\<close> returns whether the result is 0.
\<close>

definition memcpy :: "heap \<Rightarrow> addr option \<Rightarrow> addr option \<Rightarrow> nat \<Rightarrow> error + heap" where
  "memcpy s dst src n =
     bindE (buf_at s dst) (\<lambda>d. bindE (buf_at s src) (\<lambda>b.
       if n \<le> length d \<and> n \<le> length b
       then (case dst of None \<Rightarrow> Inl Undefined
             | Some a \<Rightarrow> Inr (s\<lparr>bufs := (bufs s)(a \<mapsto> take n b @ drop n d)\<rparr>))
       else Inl Undefined))"

definition memcmp :: "heap \<Rightarrow> addr option \<Rightarrow> addr option \<Rightarrow> nat \<Rightarrow> error + bool" where
  "memcmp s p q n =
     bindE (buf_at s p) (\<lambda>a. bindE (buf_at s q) (\<lambda>b.
       if n \<le> length a \<and> n \<le> length b then Inr (take n a = take n b)
       else Inl Undefined))"


definition memset :: "heap \<Rightarrow> addr option \<Rightarrow> nat \<Rightarrow> byte \<Rightarrow> nat \<Rightarrow> error + heap" where
  \<comment> \<open>\<open>memset(p + off, v, n)\<close>\<close>
  "memset s p off v n =
     bindE (buf_at s p) (\<lambda>b.
       if off + n \<le> length b
       then (case p of None \<Rightarrow> Inl Undefined
             | Some a \<Rightarrow>
                 Inr (s\<lparr>bufs := (bufs s)(a \<mapsto> take off b @ replicate n v @ drop (off + n) b)\<rparr>))
       else Inl Undefined)"

text \<open>
  \<open>realloc\<close> moves the block to a fresh address; the bytes beyond the old length are
  uninitialised.  On failure the old block stays allocated.
\<close>

definition realloc_buf :: "heap \<Rightarrow> addr option \<Rightarrow> nat \<Rightarrow> error + (addr option \<times> heap)" where
  "realloc_buf s p n =
     (case p of None \<Rightarrow> Inr (malloc_buf s n)
      | Some a \<Rightarrow>
          (case bufs s a of None \<Rightarrow> Inl Undefined
           | Some old \<Rightarrow>
               if avail s = 0 then Inr (None, s)
               else Inr (Some (brk s),
                    s\<lparr>bufs := ((bufs s)(a := None))
                               (brk s \<mapsto> take n old @ replicate (n - length old) (junk s)),
                      brk := brk s + 1, avail := avail s - 1\<rparr>)))"

section \<open>The list operations\<close>

subsection \<open>\<open>free_node\<close>\<close>

definition free_node :: "heap \<Rightarrow> addr option \<Rightarrow> error + heap" where
  "free_node s ptr_node =
     bindE (node_at s ptr_node) (\<lambda>n.
     bindE (data_at s (data n)) (\<lambda>d.
     bindE (free_buf s (payload d)) (\<lambda>s1.
     bindE (node_at s1 ptr_node) (\<lambda>n1.
     bindE (free_data s1 (data n1)) (\<lambda>s2.
     free_node_mem s2 ptr_node)))))"

subsection \<open>\<open>list_init\<close>\<close>

text \<open>The three cleanup labels of \<open>list_init\<close>; each falls through to the next.\<close>

definition err_data :: "heap \<Rightarrow> addr option \<Rightarrow> error + (addr option \<times> heap)" where
  "err_data s ptr_data = bindE (free_data s ptr_data) (\<lambda>s1. Inr (None, s1))"

definition err_payload :: "heap \<Rightarrow> addr option \<Rightarrow> error + (addr option \<times> heap)" where
  "err_payload s ptr_data =
     bindE (data_at s ptr_data) (\<lambda>d.
     bindE (free_buf s (payload d)) (\<lambda>s1. err_data s1 ptr_data))"

definition err_node ::
  "heap \<Rightarrow> addr option \<Rightarrow> addr option \<Rightarrow> error + (addr option \<times> heap)" where
  "err_node s ptr_node ptr_data =
     bindE (free_node_mem s ptr_node) (\<lambda>s1. err_payload s1 ptr_data)"

definition list_init :: "heap \<Rightarrow> addr option \<Rightarrow> nat \<Rightarrow> error + (addr option \<times> heap)" where
  "list_init s pl sz =
     (if pl = None \<or> sz \<le> 0 then Inr (None, s)
      else case malloc_data s of (ptr_data, s1) \<Rightarrow>
        if ptr_data = None then err_data s1 ptr_data
        else
          bindE (upd_data s1 ptr_data (\<lambda>d. d\<lparr>size_d := sz\<rparr>)) (\<lambda>s2.
          case malloc_buf s2 sz of (p, s3) \<Rightarrow>
          bindE (upd_data s3 ptr_data (\<lambda>d. d\<lparr>payload := p\<rparr>)) (\<lambda>s4.
          bindE (data_at s4 ptr_data) (\<lambda>d4.
          if payload d4 = None then err_payload s4 ptr_data
          else
            bindE (memcpy s4 (payload d4) pl sz) (\<lambda>s5.
            case malloc_node s5 of (ptr_node, s6) \<Rightarrow>
            if ptr_node = None then err_node s6 ptr_node ptr_data
            else
              bindE (upd_node s6 ptr_node (\<lambda>n. n\<lparr>data := ptr_data\<rparr>)) (\<lambda>s7.
              bindE (upd_node s7 ptr_node (\<lambda>n. n\<lparr>next := None\<rparr>)) (\<lambda>s8.
              bindE (upd_node s8 ptr_node (\<lambda>n. n\<lparr>prev := None\<rparr>)) (\<lambda>s9.
              bindE (node_at s9 ptr_node) (\<lambda>n9.
              bindE (data_at s9 (data n9)) (\<lambda>d9.
              bindE (memcmp s9 pl (payload d9) sz) (\<lambda>same.
              if \<not> same \<or> next n9 \<noteq> None \<or> prev n9 \<noteq> None then Inl AssertFailed
              else Inr (ptr_node, s9))))))))))))"

subsection \<open>\<open>list_len\<close>\<close>

text \<open>
  The traversal loops follow \<open>next\<close> pointers until \<open>NULL\<close>; on a cyclic structure they do
  not return, which is the value \<open>None\<close> of the outer option.
\<close>

partial_function (option) list_len_loop ::
  "heap \<Rightarrow> addr option \<Rightarrow> nat \<Rightarrow> (error + nat) option" where
  "list_len_loop s root len =
     (case root of None \<Rightarrow> Some (Inr len)
      | Some a \<Rightarrow> (case nodes s a of None \<Rightarrow> Some (Inl Undefined)
                   | Some n \<Rightarrow> list_len_loop s (next n) (len + 1)))"

declare list_len_loop.simps [code]

definition list_len :: "heap \<Rightarrow> addr option \<Rightarrow> (error + nat) option" where
  "list_len s root = list_len_loop s root 0"

subsection \<open>\<open>list_insert\<close>\<close>

text \<open>The loop \<open>while(pos > 0)\<close>: returns \<open>(ptr_prev, ptr_pos)\<close>.\<close>

fun insert_walk ::
  "heap \<Rightarrow> addr option \<Rightarrow> addr option \<Rightarrow> nat \<Rightarrow> error + (addr option \<times> addr option)" where
  "insert_walk s ptr_prev ptr_pos 0 = Inr (ptr_prev, ptr_pos)"
| "insert_walk s ptr_prev ptr_pos (Suc pos) =
     (case ptr_pos of None \<Rightarrow> Inl AssertFailed
      | Some a \<Rightarrow> (case nodes s a of None \<Rightarrow> Inl Undefined
                   | Some n \<Rightarrow> insert_walk s (Some a) (next n) pos))"

text \<open>The three linking cases, statement by statement.\<close>

definition insert_link ::
  "heap \<Rightarrow> addr option \<Rightarrow> addr option \<Rightarrow> addr option \<Rightarrow> addr option
     \<Rightarrow> error + (addr option \<times> heap)" where
  "insert_link s ptr_root ptr_prev ptr_pos ptr_node =
     (if ptr_pos = None then
        (if ptr_node = None \<or> ptr_prev = None then Inl AssertFailed
         else
           bindE (upd_node s ptr_node (\<lambda>n. n\<lparr>next := None\<rparr>)) (\<lambda>s1.
           bindE (upd_node s1 ptr_node (\<lambda>n. n\<lparr>prev := ptr_prev\<rparr>)) (\<lambda>s2.
           bindE (upd_node s2 ptr_prev (\<lambda>n. n\<lparr>next := ptr_node\<rparr>)) (\<lambda>s3.
           Inr (ptr_root, s3)))))
      else
        bindE (node_at s ptr_pos) (\<lambda>np.
        if prev np = None then
          (if ptr_node = None \<or> ptr_pos = None then Inl AssertFailed
           else
             bindE (upd_node s ptr_node (\<lambda>n. n\<lparr>next := ptr_root\<rparr>)) (\<lambda>s1.
             bindE (upd_node s1 ptr_node (\<lambda>n. n\<lparr>prev := None\<rparr>)) (\<lambda>s2.
             bindE (upd_node s2 ptr_pos (\<lambda>n. n\<lparr>prev := ptr_node\<rparr>)) (\<lambda>s3.
             Inr (ptr_node, s3)))))
        else
          (if ptr_node = None \<or> ptr_pos = None \<or> prev np = None then Inl AssertFailed
           else
             bindE (upd_node s ptr_node (\<lambda>n. n\<lparr>next := ptr_pos\<rparr>)) (\<lambda>s1.
             bindE (node_at s1 ptr_pos) (\<lambda>p1.
             bindE (upd_node s1 ptr_node (\<lambda>n. n\<lparr>prev := prev p1\<rparr>)) (\<lambda>s2.
             bindE (upd_node s2 ptr_pos (\<lambda>n. n\<lparr>prev := ptr_node\<rparr>)) (\<lambda>s3.
             bindE (node_at s3 ptr_pos) (\<lambda>p3.
             bindE (upd_node s3 (prev p3) (\<lambda>n. n\<lparr>next := ptr_node\<rparr>)) (\<lambda>s4.
             Inr (ptr_root, s4))))))))))"

definition insert_body ::
  "heap \<Rightarrow> addr option \<Rightarrow> addr option \<Rightarrow> nat \<Rightarrow> nat \<Rightarrow> error + (addr option \<times> heap)" where
  "insert_body s ptr_root pl sz pos =
     bindE (insert_walk s None ptr_root pos) (\<lambda>(ptr_prev, ptr_pos).
     case malloc_node s of (ptr_node, s1) \<Rightarrow>
     case malloc_data s1 of (ptr_data, s2) \<Rightarrow>
     case malloc_buf s2 sz of (p, s3) \<Rightarrow>
     bindE (upd_data s3 ptr_data (\<lambda>d. d\<lparr>payload := p\<rparr>)) (\<lambda>s4.
     bindE (data_at s4 ptr_data) (\<lambda>d4.
     if ptr_node = None \<or> ptr_data = None \<or> payload d4 = None
     then bindE (free_node s4 ptr_node) (\<lambda>s5. Inr (None, s5))
     else
       bindE (insert_link s4 ptr_root ptr_prev ptr_pos ptr_node) (\<lambda>(new_root, s5).
       bindE (data_at s5 ptr_data) (\<lambda>d5.
       bindE (memcpy s5 (payload d5) pl sz) (\<lambda>s6.
       bindE (upd_data s6 ptr_data (\<lambda>d. d\<lparr>size_d := sz\<rparr>)) (\<lambda>s7.
       bindE (upd_node s7 ptr_node (\<lambda>n. n\<lparr>data := ptr_data\<rparr>)) (\<lambda>s8.
       bindE (node_at s8 ptr_node) (\<lambda>n8.
       bindE (data_at s8 (data n8)) (\<lambda>d8.
       bindE (memcmp s8 pl (payload d8) sz) (\<lambda>same.
       if \<not> same then Inl AssertFailed else Inr (new_root, s8))))))))))))"

definition list_insert ::
  "heap \<Rightarrow> addr option \<Rightarrow> addr option \<Rightarrow> nat \<Rightarrow> nat
     \<Rightarrow> (error + (addr option \<times> heap)) option" where
  "list_insert s ptr_root pl sz pos =
     (if ptr_root = None \<or> pl = None then Some (Inr (None, s))
      else case list_len s ptr_root of
             None \<Rightarrow> None
           | Some (Inl e) \<Rightarrow> Some (Inl e)
           | Some (Inr len) \<Rightarrow>
               if pos > len then Some (Inr (None, s))
               else Some (insert_body s ptr_root pl sz pos))"

subsection \<open>\<open>list_del\<close> and \<open>list_search\<close>\<close>

text \<open>\<open>memcmp(ptr_node->data->payload, payload, size) == 0\<close>\<close>

definition node_matches :: "heap \<Rightarrow> addr \<Rightarrow> addr option \<Rightarrow> nat \<Rightarrow> error + bool" where
  "node_matches s a pl sz =
     bindE (node_at s (Some a)) (\<lambda>n.
     bindE (data_at s (data n)) (\<lambda>d.
     memcmp s (payload d) pl sz))"

text \<open>The body of the \<open>if\<close> in \<open>list_del\<close>: unlink and free the matching node.\<close>

definition del_node :: "heap \<Rightarrow> addr option \<Rightarrow> addr \<Rightarrow> error + (addr option \<times> heap)" where
  "del_node s ptr_root a =
     bindE (node_at s (Some a)) (\<lambda>n.
     if prev n = None then
       (if next n \<noteq> None then
          bindE (upd_node s (next n) (\<lambda>m. m\<lparr>prev := None\<rparr>)) (\<lambda>s1.
          bindE (node_at s1 (Some a)) (\<lambda>n1.
          bindE (free_node s1 (Some a)) (\<lambda>s2. Inr (next n1, s2))))
        else bindE (free_node s (Some a)) (\<lambda>s1. Inr (None, s1)))
     else
       (if next n \<noteq> None then
          bindE (upd_node s (next n) (\<lambda>m. m\<lparr>prev := prev n\<rparr>)) (\<lambda>s1.
          bindE (node_at s1 (Some a)) (\<lambda>n1.
          bindE (upd_node s1 (prev n1) (\<lambda>m. m\<lparr>next := next n1\<rparr>)) (\<lambda>s2.
          bindE (free_node s2 (Some a)) (\<lambda>s3. Inr (ptr_root, s3)))))
        else
          bindE (upd_node s (prev n) (\<lambda>m. m\<lparr>next := None\<rparr>)) (\<lambda>s1.
          bindE (free_node s1 (Some a)) (\<lambda>s2. Inr (ptr_root, s2)))))"

partial_function (option) list_del_loop ::
  "heap \<Rightarrow> addr option \<Rightarrow> addr option \<Rightarrow> addr option \<Rightarrow> nat
     \<Rightarrow> (error + (addr option \<times> heap)) option" where
  "list_del_loop s ptr_root ptr_node pl sz =
     (case ptr_node of None \<Rightarrow> Some (Inl AssertFailed)
      | Some a \<Rightarrow>
          (case node_matches s a pl sz of Inl e \<Rightarrow> Some (Inl e)
           | Inr same \<Rightarrow>
               if same then Some (del_node s ptr_root a)
               else (case nodes s a of None \<Rightarrow> Some (Inl Undefined)
                     | Some n \<Rightarrow> list_del_loop s ptr_root (next n) pl sz)))"

declare list_del_loop.simps [code]

definition list_del ::
  "heap \<Rightarrow> addr option \<Rightarrow> addr option \<Rightarrow> nat \<Rightarrow> (error + (addr option \<times> heap)) option" where
  "list_del s ptr_root pl sz = list_del_loop s ptr_root ptr_root pl sz"

partial_function (option) list_search ::
  "heap \<Rightarrow> addr option \<Rightarrow> addr option \<Rightarrow> nat \<Rightarrow> (error + addr option) option" where
  "list_search s ptr_root pl sz =
     (case ptr_root of None \<Rightarrow> Some (Inr None)
      | Some a \<Rightarrow>
          (case node_matches s a pl sz of Inl e \<Rightarrow> Some (Inl e)
           | Inr same \<Rightarrow>
               if same then Some (Inr ptr_root)
               else (case nodes s a of None \<Rightarrow> Some (Inl Undefined)
                     | Some n \<Rightarrow> list_search s (next n) pl sz)))"

declare list_search.simps [code]

subsection \<open>\<open>list_get\<close>\<close>

fun get_walk :: "heap \<Rightarrow> addr option \<Rightarrow> nat \<Rightarrow> error + addr option" where
  "get_walk s ptr_root 0 = Inr ptr_root"
| "get_walk s ptr_root (Suc pos) =
     (case ptr_root of None \<Rightarrow> Inl AssertFailed
      | Some a \<Rightarrow> (case nodes s a of None \<Rightarrow> Inl Undefined
                   | Some n \<Rightarrow> get_walk s (next n) pos))"

definition list_get :: "heap \<Rightarrow> addr option \<Rightarrow> nat \<Rightarrow> (error + addr option) option" where
  "list_get s ptr_root pos =
     (if ptr_root = None then Some (Inr None)
      else case list_len s ptr_root of
             None \<Rightarrow> None
           | Some (Inl e) \<Rightarrow> Some (Inl e)
           | Some (Inr len) \<Rightarrow>
               if pos \<ge> len then Some (Inr None)
               else Some (bindE (get_walk s ptr_root pos) (\<lambda>p.
                          bindE (node_at s p) (\<lambda>n.
                          bindE (data_at s (data n)) (\<lambda>d. Inr (payload d))))))"


subsection \<open>\<open>list_print\<close>\<close>

text \<open>
  The callback \<open>print_payload\<close> receives the payload and the cursor \<open>buff + buff_ptr\<close>.  It
  is modelled by a function from the payload bytes to the \<open>int\<close> it returns and the bytes
  it stores from the cursor on.  \<open>store_bytes\<close> performs these stores.
\<close>

definition store_bytes :: "heap \<Rightarrow> addr option \<Rightarrow> nat \<Rightarrow> byte list \<Rightarrow> error + heap" where
  "store_bytes s p off out =
     bindE (buf_at s p) (\<lambda>b.
       if off + length out \<le> length b
       then (case p of None \<Rightarrow> Inl Undefined
             | Some a \<Rightarrow>
                 Inr (s\<lparr>bufs := (bufs s)(a \<mapsto> take off b @ out @ drop (off + length out) b)\<rparr>))
       else Inl Undefined)"

definition LIST_PRINT_BUFF_SIZE :: nat where
  "LIST_PRINT_BUFF_SIZE = 16"

definition REALLOC_THRESHOLD :: nat where
  "REALLOC_THRESHOLD = 8"

text \<open>
  One iteration of the \<open>while\<close> loop of \<open>list_print\<close> on the node at \<open>a\<close>.  The result is
  either the value the function returns from inside the loop (\<open>Inl\<close>), or the variables
  \<open>(root, buff, buff_ptr, curr_buff_size)\<close> and the heap for the next iteration.  The
  \<open>size_t\<close> arithmetic on the cursor and the capacity is written out modulo \<open>2 ^ 64\<close>.
\<close>

definition print_step ::
  "(byte list \<Rightarrow> int \<times> byte list) \<Rightarrow> heap \<Rightarrow> addr \<Rightarrow> addr option \<Rightarrow> nat \<Rightarrow> nat
     \<Rightarrow> error + ((addr option \<times> heap) + (heap \<times> addr option \<times> addr option \<times> nat \<times> nat))" where
  "print_step print_payload s a buff buff_ptr curr_buff_size =
     bindE (node_at s (Some a)) (\<lambda>n.
     bindE (data_at s (data n)) (\<lambda>d.
     bindE (buf_at s (payload d)) (\<lambda>pb.
     case print_payload pb of (written, out) \<Rightarrow>
     bindE (store_bytes s buff buff_ptr out) (\<lambda>s1.
     if written = - 1 then bindE (free_buf s1 buff) (\<lambda>s2. Inr (Inl (None, s2)))
     else
       let buff_ptr1 = nat ((int buff_ptr + written) mod 2 ^ 64) in
       if buff_ptr1 > (curr_buff_size + 2 ^ 64 - REALLOC_THRESHOLD) mod 2 ^ 64 then
         bindE (realloc_buf s1 buff ((curr_buff_size * 2) mod 2 ^ 64)) (\<lambda>(new_buff, s2).
         if new_buff = None then bindE (free_buf s2 buff) (\<lambda>s3. Inr (Inl (None, s3)))
         else
           bindE (memset s2 new_buff buff_ptr1 0 curr_buff_size) (\<lambda>s3.
           bindE (node_at s3 (Some a)) (\<lambda>n3.
           Inr (Inr (s3, next n3, new_buff, buff_ptr1, (curr_buff_size * 2) mod 2 ^ 64)))))
       else
         bindE (node_at s1 (Some a)) (\<lambda>n1.
         Inr (Inr (s1, next n1, buff, buff_ptr1, curr_buff_size)))))))"

partial_function (option) list_print_loop ::
  "(byte list \<Rightarrow> int \<times> byte list) \<Rightarrow> heap \<Rightarrow> addr option \<Rightarrow> addr option \<Rightarrow> nat \<Rightarrow> nat
     \<Rightarrow> (error + (addr option \<times> heap)) option" where
  "list_print_loop print_payload s root buff buff_ptr curr_buff_size =
     (case root of None \<Rightarrow> Some (Inr (buff, s))
      | Some a \<Rightarrow>
          (case print_step print_payload s a buff buff_ptr curr_buff_size of
             Inl e \<Rightarrow> Some (Inl e)
           | Inr (Inl res) \<Rightarrow> Some (Inr res)
           | Inr (Inr (s1, root1, buff1, buff_ptr1, size1)) \<Rightarrow>
               list_print_loop print_payload s1 root1 buff1 buff_ptr1 size1))"

declare list_print_loop.simps [code]

text \<open>
  The buffer is allocated and cleared before \<open>print_payload\<close> is tested, so a \<open>NULL\<close>
  callback returns \<open>NULL\<close> with the buffer still allocated.
\<close>

definition list_print ::
  "heap \<Rightarrow> addr option \<Rightarrow> (byte list \<Rightarrow> int \<times> byte list) option
     \<Rightarrow> (error + (addr option \<times> heap)) option" where
  "list_print s root print_payload =
     (case malloc_buf s LIST_PRINT_BUFF_SIZE of (buff, s1) \<Rightarrow>
        (case memset s1 buff 0 0 LIST_PRINT_BUFF_SIZE of
           Inl e \<Rightarrow> Some (Inl e)
         | Inr s2 \<Rightarrow>
             (case print_payload of None \<Rightarrow> Some (Inr (None, s2))
              | Some f \<Rightarrow> list_print_loop f s2 root buff 0 LIST_PRINT_BUFF_SIZE)))"

section \<open>Lists in the heap\<close>

text \<open>
  \<open>path N p as q\<close>: following \<open>next\<close> from \<open>p\<close> visits exactly the nodes \<open>as\<close> and arrives
  at \<open>q\<close>.  A list is a path to \<open>NULL\<close>.  \<open>back_links N pv as\<close>: the \<open>prev\<close> field of every
  node of \<open>as\<close> points to its predecessor in \<open>as\<close>, the first one's to \<open>pv\<close>.
\<close>

fun path :: "(addr \<rightharpoonup> list_node_t) \<Rightarrow> addr option \<Rightarrow> addr list \<Rightarrow> addr option \<Rightarrow> bool" where
  "path N p [] q = (p = q)"
| "path N p (a # as) q =
     (p = Some a \<and> (case N a of None \<Rightarrow> False | Some n \<Rightarrow> path N (next n) as q))"

fun back_links :: "(addr \<rightharpoonup> list_node_t) \<Rightarrow> addr option \<Rightarrow> addr list \<Rightarrow> bool" where
  "back_links N pv [] = True"
| "back_links N pv (a # as) =
     (case N a of None \<Rightarrow> False | Some n \<Rightarrow> prev n = pv \<and> back_links N (Some a) as)"

text \<open>
  The payload holder of the node at \<open>a\<close>, the address of its byte buffer, and the bytes
  stored there.
\<close>

definition holder :: "heap \<Rightarrow> addr \<Rightarrow> addr option" where
  "holder s a =
     (case nodes s a of None \<Rightarrow> None
      | Some n \<Rightarrow> (case data n of None \<Rightarrow> None
                   | Some d \<Rightarrow> (case datas s d of None \<Rightarrow> None | Some _ \<Rightarrow> Some d)))"

definition buffer :: "heap \<Rightarrow> addr \<Rightarrow> addr option" where
  "buffer s a =
     (case holder s a of None \<Rightarrow> None
      | Some d \<Rightarrow> (case datas s d of None \<Rightarrow> None | Some h \<Rightarrow> payload h))"

definition stored :: "heap \<Rightarrow> addr \<Rightarrow> byte list option" where
  "stored s a = (case buffer s a of None \<Rightarrow> None | Some b \<Rightarrow> bufs s b)"

text \<open>
  Every node of \<open>as\<close> owns a holder and a buffer, and no two nodes share a holder or a
  buffer.
\<close>

definition owned :: "heap \<Rightarrow> addr list \<Rightarrow> bool" where
  "owned s as =
     ((\<forall>a \<in> set as. stored s a \<noteq> None) \<and>
      distinct (map (holder s) as) \<and> distinct (map (buffer s) as))"

text \<open>The node at \<open>a\<close> stores at least \<open>sz\<close> bytes, so that \<open>sz\<close> bytes of it can be read.\<close>

definition readable :: "heap \<Rightarrow> nat \<Rightarrow> addr \<Rightarrow> bool" where
  "readable s sz a = (case stored s a of None \<Rightarrow> False | Some P \<Rightarrow> sz \<le> length P)"

text \<open>A list of nodes \<open>as\<close> starting at \<open>root\<close>, whose first node has no predecessor.\<close>

definition dlist :: "heap \<Rightarrow> addr option \<Rightarrow> addr list \<Rightarrow> bool" where
  "dlist s root as = (path (nodes s) root as None \<and> back_links (nodes s) None as)"

text \<open>The comparison made by \<open>list_del\<close> and \<open>list_search\<close>, on the stored bytes.\<close>

definition matches :: "heap \<Rightarrow> byte list \<Rightarrow> nat \<Rightarrow> addr \<Rightarrow> bool" where
  "matches s B sz a =
     (case stored s a of None \<Rightarrow> False | Some P \<Rightarrow> take sz P = take sz B)"

text \<open>
  The heap \<open>s\<close> with the \<open>size\<close> attribute of every payload holder replaced by an
  arbitrary value; used to state that a computation does not read the attribute.
\<close>

definition with_sizes :: "(addr \<Rightarrow> nat) \<Rightarrow> heap \<Rightarrow> heap" where
  "with_sizes g s = s\<lparr>datas := (\<lambda>d. map_option (\<lambda>h. h\<lparr>size_d := g d\<rparr>) (datas s d))\<rparr>"

section \<open>Example heaps\<close>

text \<open>
  A caller with three one-byte buffers (holding 10, 20 and 15) at addresses 1, 2 and 3,
  and an allocator that starts at address 4.  \<open>heap1\<close> is the heap after
  \<open>list_init\<close> on the first buffer, \<open>heap2\<close> after appending the second.
\<close>

definition heap0 :: heap where
  "heap0 = \<lparr>nodes = Map.empty, datas = Map.empty,
            bufs = [1 \<mapsto> [10], 2 \<mapsto> [20], 3 \<mapsto> [15]],
            brk = 4, avail = 100, junk = 0\<rparr>"

definition heap1 :: heap where
  "heap1 = \<lparr>nodes = [6 \<mapsto> \<lparr>data = Some 4, prev = None, next = None\<rparr>],
            datas = [4 \<mapsto> \<lparr>payload = Some 5, size_d = 1\<rparr>],
            bufs = [1 \<mapsto> [10], 2 \<mapsto> [20], 3 \<mapsto> [15], 5 \<mapsto> [10]],
            brk = 7, avail = 97, junk = 0\<rparr>"

definition heap2 :: heap where
  "heap2 = \<lparr>nodes = [6 \<mapsto> \<lparr>data = Some 4, prev = None, next = Some 7\<rparr>,
                     7 \<mapsto> \<lparr>data = Some 8, prev = Some 6, next = None\<rparr>],
            datas = [4 \<mapsto> \<lparr>payload = Some 5, size_d = 1\<rparr>,
                     8 \<mapsto> \<lparr>payload = Some 9, size_d = 1\<rparr>],
            bufs = [1 \<mapsto> [10], 2 \<mapsto> [20], 3 \<mapsto> [15], 5 \<mapsto> [10], 9 \<mapsto> [20]],
            brk = 10, avail = 94, junk = 0\<rparr>"

text \<open>
  A caller with a one-byte and a two-byte buffer; \<open>heap_wide\<close> is the heap after
  \<open>list_init\<close> on the two-byte buffer.
\<close>

definition heap_wide0 :: heap where
  "heap_wide0 = \<lparr>nodes = Map.empty, datas = Map.empty,
            bufs = [1 \<mapsto> [10], 2 \<mapsto> [10, 11]],
            brk = 4, avail = 100, junk = 0\<rparr>"

definition heap_wide :: heap where
  "heap_wide = \<lparr>nodes = [6 \<mapsto> \<lparr>data = Some 4, prev = None, next = None\<rparr>],
            datas = [4 \<mapsto> \<lparr>payload = Some 5, size_d = 2\<rparr>],
            bufs = [1 \<mapsto> [10], 2 \<mapsto> [10, 11], 5 \<mapsto> [10, 11]],
            brk = 7, avail = 97, junk = 0\<rparr>"

section \<open>Basic facts\<close>

lemma bindE_Inr [simp]: "bindE (Inr x) f = f x"
  by (simp add: bindE_def)

lemma bindE_Inl [simp]: "bindE (Inl e) f = Inl e"
  by (simp add: bindE_def)

lemmas heap_ops =
  malloc_node_def malloc_data_def malloc_buf_def free_node_mem_def free_data_def free_buf_def
  node_at_def data_at_def buf_at_def upd_node_def upd_data_def memcpy_def memcmp_def

section \<open>Construction\<close>

lemma list_init_ok:
  assumes "bufs s p = Some P" and "L \<le> length P" and "0 < L" and "3 \<le> avail s"
    and "p < brk s"
  shows "list_init s (Some p) L =
    Inr (Some (brk s + 2),
      s\<lparr>nodes := (nodes s)(brk s + 2 \<mapsto> \<lparr>data = Some (brk s), prev = None, next = None\<rparr>),
        datas := (datas s)(brk s \<mapsto> \<lparr>payload = Some (brk s + 1), size_d = L\<rparr>),
        bufs := (bufs s)(brk s + 1 \<mapsto> take L P),
        brk := brk s + 3, avail := avail s - 3\<rparr>)"
  using assms by (simp add: list_init_def heap_ops numeral_eq_Suc)

text \<open>
  C7.  For a caller buffer at \<open>p\<close> holding at least \<open>L > 0\<close> bytes (and three allocations
  succeeding), \<open>list_init\<close> returns a node whose \<open>prev\<close> and \<open>next\<close> are both \<open>NULL\<close>, whose
  holder stores the size \<open>L\<close> and points to a buffer holding exactly the first \<open>L\<close> bytes of
  the caller's buffer.  That buffer is not the caller's: whatever the caller writes to
  its own buffer afterwards, the stored bytes stay the same.
\<close>

theorem list_init_copies_payload:
  assumes "bufs s p = Some P" and "L \<le> length P" and "0 < L" and "3 \<le> avail s"
    and "p < brk s"
  shows "\<exists>r d b s'. list_init s (Some p) L = Inr (Some r, s') \<and>
           nodes s' r = Some \<lparr>data = Some d, prev = None, next = None\<rparr> \<and>
           datas s' d = Some \<lparr>payload = Some b, size_d = L\<rparr> \<and>
           bufs s' b = Some (take L P) \<and>
           (\<forall>x. bufs (s'\<lparr>bufs := (bufs s')(p \<mapsto> x)\<rparr>) b = Some (take L P))"
  using assms by (simp add: list_init_ok)

theorem list_init_copies_payload_witness:
  "bufs heap0 1 = Some [10] \<and> (1::nat) \<le> length [10::byte] \<and> (0::nat) < 1 \<and>
   3 \<le> avail heap0 \<and> 1 < brk heap0 \<and>
   (\<exists>r d b s'. list_init heap0 (Some 1) 1 = Inr (Some r, s') \<and>
           nodes s' r = Some \<lparr>data = Some d, prev = None, next = None\<rparr> \<and>
           datas s' d = Some \<lparr>payload = Some b, size_d = 1\<rparr> \<and>
           bufs s' b = Some (take 1 [10]) \<and>
           (\<forall>x. bufs (s'\<lparr>bufs := (bufs s')(1 \<mapsto> x)\<rparr>) b = Some (take 1 [10])))"
  using list_init_copies_payload [of heap0 1 "[10]" 1] by (simp add: heap0_def)


section \<open>The example heaps are produced by the library\<close>

lemmas insert_defs =
  list_insert_def insert_body_def insert_link_def list_len_def list_len_loop.simps
  list_get_def free_node_def

lemma heap1_built: "list_init heap0 (Some 1) 1 = Inr (Some 6, heap1)"
  by (simp add: list_init_def heap_ops heap0_def heap1_def)

lemma heap2_built: "list_insert heap1 (Some 6) (Some 2) 1 1 = Some (Inr (Some 6, heap2))"
  by (simp add: insert_defs heap_ops heap1_def heap2_def)

lemma heap_wide_built: "list_init heap_wide0 (Some 2) 2 = Inr (Some 6, heap_wide)"
  by (simp add: list_init_def heap_ops heap_wide0_def heap_wide_def)

lemma heap2_dlist: "dlist heap2 (Some 6) [6, 7]"
  by (simp add: dlist_def heap2_def)

section \<open>Insertion in the middle\<close>

text \<open>
  C1.  Inserting 15 at position 1 of the two-element list 10, 20 (position 1 is occupied
  by a node that has a predecessor, so the linking code for the middle of the list runs).
  The call returns the old root, but the list reached from it still has length 2 and its
  element at index 1 is still the buffer holding 20: the new node is not reachable.
\<close>

theorem list_insert_middle_unreachable:
  "\<exists>s'. list_insert heap2 (Some 6) (Some 3) 1 1 = Some (Inr (Some 6, s')) \<and>
        list_len s' (Some 6) = Some (Inr 2) \<and>
        list_get s' (Some 6) 1 = Some (Inr (Some 9)) \<and>
        bufs s' 9 = Some [20]"
  by (simp add: insert_defs heap_ops heap2_def)

text \<open>
  C2.  The same call on the same list, which satisfies the invariant before the call.
  Afterwards the node at 6 still has the node at 7 as its \<open>next\<close>, while the \<open>prev\<close> of the
  node at 7 is the new node at 10, and the \<open>next\<close> of the new node is the new node itself.
  No sequence of nodes makes the returned root a well-linked list.
\<close>

theorem list_insert_middle_breaks_links:
  "\<exists>s'. list_insert heap2 (Some 6) (Some 3) 1 1 = Some (Inr (Some 6, s')) \<and>
        dlist heap2 (Some 6) [6, 7] \<and>
        nodes s' 6 = Some \<lparr>data = Some 4, prev = None, next = Some 7\<rparr> \<and>
        nodes s' 7 = Some \<lparr>data = Some 8, prev = Some 10, next = None\<rparr> \<and>
        nodes s' 10 = Some \<lparr>data = Some 11, prev = Some 6, next = Some 10\<rparr> \<and>
        (\<forall>as. \<not> dlist s' (Some 6) as)"
proof -
  let ?N = "[6 \<mapsto> \<lparr>data = Some 4, prev = None, next = Some 7\<rparr>,
             7 \<mapsto> \<lparr>data = Some 8, prev = Some 10, next = None\<rparr>,
             10 \<mapsto> \<lparr>data = Some 11, prev = Some 6, next = Some (10::nat)\<rparr>] :: addr \<rightharpoonup> list_node_t"
  have no_list: "\<not> (path ?N (Some 6) as None \<and> back_links ?N None as)" for as
  proof (cases as)
    case Nil
    then show ?thesis by simp
  next
    case (Cons a bs)
    show ?thesis
    proof (cases bs)
      case Nil
      with Cons show ?thesis by simp
    next
      case (Cons b cs)
      with \<open>as = a # bs\<close> show ?thesis by (cases cs) auto
    qed
  qed
  have "\<exists>s'. list_insert heap2 (Some 6) (Some 3) 1 1 = Some (Inr (Some 6, s')) \<and>
          nodes s' = ?N"
    by (simp add: insert_defs heap_ops heap2_def fun_upd_twist)
  then obtain s' where
    ins: "list_insert heap2 (Some 6) (Some 3) 1 1 = Some (Inr (Some 6, s'))"
    and N: "nodes s' = ?N" by blast
  have "\<forall>as. \<not> dlist s' (Some 6) as"
    unfolding dlist_def N using no_list by blast
  with ins N heap2_dlist show ?thesis by simp
qed

section \<open>Argument checks of \<open>list_insert\<close>\<close>

text \<open>
  C5.  \<open>list_insert\<close> with a size of 0 on the one-element list: the call is not rejected.
  It returns the root, three blocks have been allocated, and the list has grown to two
  nodes.
\<close>

theorem list_insert_accepts_zero_size:
  "\<exists>s'. list_insert heap1 (Some 6) (Some 2) 0 1 = Some (Inr (Some 6, s')) \<and>
        list_len heap1 (Some 6) = Some (Inr 1) \<and>
        list_len s' (Some 6) = Some (Inr 2) \<and>
        brk s' = brk heap1 + 3"
  by (simp add: insert_defs heap_ops heap1_def)

section \<open>The print buffer\<close>

text \<open>
  C8.  \<open>list_print\<close> on the one-element list, with a callback that writes nine bytes, on a
  heap whose unwritten memory holds the byte 170.  The cursor ends at 9, beyond the
  threshold, so the buffer grows from 16 to 32 bytes and 16 bytes are cleared from the
  cursor on: the last seven bytes of the returned buffer are not zero.
\<close>

theorem list_print_tail_not_cleared:
  "\<exists>b s'. list_print (heap1\<lparr>junk := 170\<rparr>) (Some 6) (Some (\<lambda>pb. (9, replicate 9 65))) =
            Some (Inr (Some b, s')) \<and>
          bufs s' b = Some (replicate 9 65 @ replicate 16 0 @ replicate 7 170)"
  by (simp add: list_print_def list_print_loop.simps print_step_def store_bytes_def
      memset_def realloc_buf_def heap_ops heap1_def LIST_PRINT_BUFF_SIZE_def
      REALLOC_THRESHOLD_def)

section \<open>Traversals of a list\<close>

lemma path_None [simp]: "path N None as q = (as = [] \<and> q = None)"
  by (cases as) auto

lemma list_len_loop_path:
  "path (nodes s) r as None \<Longrightarrow> list_len_loop s r k = Some (Inr (k + length as))"
proof (induction as arbitrary: r k)
  case Nil
  then show ?case by (simp add: list_len_loop.simps)
next
  case (Cons a as)
  then obtain n where n: "r = Some a" "nodes s a = Some n" "path (nodes s) (next n) as None"
    by (auto split: option.splits)
  from Cons.IH [OF n(3), of "k + 1"] n(1,2) show ?case
    by (subst list_len_loop.simps) simp
qed

lemma list_len_path: "path (nodes s) r as None \<Longrightarrow> list_len s r = Some (Inr (length as))"
  by (simp add: list_len_def list_len_loop_path)

lemma get_walk_path:
  "path (nodes s) r as None \<Longrightarrow> p < length as \<Longrightarrow> get_walk s r p = Inr (Some (as ! p))"
proof (induction p arbitrary: r as)
  case 0
  then show ?case by (cases as) auto
next
  case (Suc p)
  then show ?case by (cases as) (auto split: option.splits)
qed

lemma buffer_SomeD:
  "buffer s a = Some b \<Longrightarrow>
     \<exists>n d h. nodes s a = Some n \<and> data n = Some d \<and> datas s d = Some h \<and> payload h = Some b"
  by (auto simp: buffer_def holder_def split: option.splits)

lemma list_get_path:
  assumes "path (nodes s) r as None" and "\<forall>a \<in> set as. buffer s a \<noteq> None"
  shows "list_get s r p =
           Some (Inr (if r = None \<or> length as \<le> p then None else buffer s (as ! p)))"
proof (cases "r = None \<or> length as \<le> p")
  case True
  with assms(1) show ?thesis by (auto simp: list_get_def list_len_path)
next
  case False
  then have p: "p < length as" and r: "r \<noteq> None" by auto
  then obtain b where b: "buffer s (as ! p) = Some b"
    using assms(2) by (metis nth_mem not_None_eq)
  from buffer_SomeD [OF b] obtain n d h where
    "nodes s (as ! p) = Some n" "data n = Some d" "datas s d = Some h" "payload h = Some b"
    by blast
  with assms(1) p r b show ?thesis
    by (simp add: list_get_def list_len_path get_walk_path node_at_def data_at_def)
qed

lemma path_append:
  "path N p (xs @ ys) q = (\<exists>m. path N p xs m \<and> path N m ys q)"
  by (induction xs arbitrary: p) (auto split: option.splits)

text \<open>
  C6.  Let the nodes \<open>as\<close> be the list reached from \<open>root\<close>.  A call of \<open>list_insert\<close> with
  \<open>root = NULL\<close>, or with a position greater than the length of the list, returns \<open>NULL\<close>
  and the heap it leaves is the heap it was called in: no node, holder or buffer is
  changed or allocated, and \<open>list_len\<close> still returns the length of \<open>as\<close>.  This holds
  for every payload pointer and size.
\<close>

theorem list_insert_rejects_position:
  assumes "path (nodes s) root as None" and "root = None \<or> length as < pos"
  shows "list_insert s root pl sz pos = Some (Inr (None, s)) \<and>
         list_len s root = Some (Inr (length as))"
  using assms by (auto simp: list_insert_def list_len_path)

theorem list_insert_rejects_position_witness:
  "path (nodes heap2) (Some 6) [6, 7] None \<and> length [6::addr, 7] < 3 \<and>
   list_insert heap2 (Some 6) (Some 3) 1 3 = Some (Inr (None, heap2)) \<and>
   list_len heap2 (Some 6) = Some (Inr 2)"
  using list_insert_rejects_position [of heap2 "Some 6" "[6, 7]" 3 "Some 3" 1]
  by (simp add: heap2_def)

text \<open>
  C9.  Let the nodes \<open>as\<close> be the list reached from \<open>r\<close>, every node having a holder with
  a payload pointer that is not \<open>NULL\<close>.  Then \<open>list_len\<close> returns the length of \<open>as\<close>, and
  \<open>list_get\<close> returns \<open>NULL\<close> exactly when \<open>r\<close> is \<open>NULL\<close> or the position is not below that
  length; otherwise it returns the payload pointer of the node at that position of
  \<open>as\<close>, the node reached after \<open>p\<close> steps along \<open>next\<close>.
\<close>

theorem list_get_position:
  assumes "path (nodes s) r as None" and "\<forall>a \<in> set as. buffer s a \<noteq> None"
  shows "list_len s r = Some (Inr (length as)) \<and>
         list_get s r p =
           Some (Inr (if r = None \<or> length as \<le> p then None else buffer s (as ! p))) \<and>
         (list_get s r p = Some (Inr None)) = (r = None \<or> length as \<le> p)"
proof -
  have get: "list_get s r p =
      Some (Inr (if r = None \<or> length as \<le> p then None else buffer s (as ! p)))"
    using assms by (rule list_get_path)
  have "buffer s (as ! p) \<noteq> None" if "p < length as"
    using assms(2) that by simp
  then have "(list_get s r p = Some (Inr None)) = (r = None \<or> length as \<le> p)"
    unfolding get by auto
  with get assms(1) show ?thesis by (simp add: list_len_path)
qed

theorem list_get_position_witness:
  "path (nodes heap2) (Some 6) [6, 7] None \<and>
   buffer heap2 6 = Some 5 \<and> buffer heap2 7 = Some 9 \<and>
   list_len heap2 (Some 6) = Some (Inr 2) \<and>
   list_get heap2 (Some 6) 1 = Some (Inr (Some 9)) \<and>
   list_get heap2 (Some 6) 2 = Some (Inr None)"
  using list_get_position [of heap2 "Some 6" "[6, 7]" 1]
    list_get_position [of heap2 "Some 6" "[6, 7]" 2]
  by (simp add: heap2_def buffer_def holder_def)

section \<open>Comparing payloads\<close>

text \<open>
  \<open>memcmp\<close> reads \<open>sz\<close> bytes of the stored payload and of the caller's buffer;
  \<open>readable s sz a\<close> and \<open>sz \<le> length B\<close> say that both have that many.
\<close>

lemma node_matches_stored:
  assumes "stored s a = Some P" and "sz \<le> length P"
    and "bufs s q = Some B" and "sz \<le> length B"
  shows "node_matches s a (Some q) sz = Inr (matches s B sz a)"
  using assms
  by (auto simp: node_matches_def matches_def stored_def buffer_def holder_def
      node_at_def data_at_def buf_at_def memcmp_def split: option.splits)

lemma owned_stored: "owned s as \<Longrightarrow> a \<in> set as \<Longrightarrow> \<exists>P. stored s a = Some P"
  by (auto simp: owned_def)

lemma node_matches_readable:
  assumes "readable s sz a" and "bufs s q = Some B" and "sz \<le> length B"
  shows "node_matches s a (Some q) sz = Inr (matches s B sz a)"
  using assms by (auto simp: readable_def node_matches_stored split: option.splits)

section \<open>Unlinking a node\<close>

lemma path_unique: "path N p as None \<Longrightarrow> path N p bs None \<Longrightarrow> as = bs"
proof (induction as arbitrary: p bs)
  case Nil
  then show ?case by simp
next
  case (Cons a as)
  then show ?case by (cases bs) (auto split: option.splits)
qed

lemma path_distinct: "path N p as None \<Longrightarrow> distinct as"
proof (induction as arbitrary: p)
  case Nil
  then show ?case by simp
next
  case (Cons a as)
  then obtain n where n: "p = Some a" "N a = Some n" "path N (next n) as None"
    by (auto split: option.splits)
  have "a \<notin> set as"
  proof
    assume "a \<in> set as"
    then obtain xs ys where as: "as = xs @ a # ys" by (auto simp: in_set_conv_decomp)
    with n(3) obtain m where "path N m (a # ys) None" by (auto simp: path_append)
    with n(2) have "path N (next n) ys None" by simp
    with n(3) have "as = ys" by (rule path_unique)
    with as show False by simp
  qed
  with Cons.IH [OF n(3)] show ?case by simp
qed

lemma path_cong:
  "\<forall>x \<in> set as. map_option next (N' x) = map_option next (N x) \<Longrightarrow>
     path N' p as q = path N p as q"
proof (induction as arbitrary: p)
  case Nil
  then show ?case by simp
next
  case (Cons a as)
  then have "map_option next (N' a) = map_option next (N a)" by simp
  with Cons show ?case by (cases "N a"; cases "N' a") auto
qed

lemma back_links_cong:
  "\<forall>x \<in> set as. map_option prev (N' x) = map_option prev (N x) \<Longrightarrow>
     back_links N' pv as = back_links N pv as"
proof (induction as arbitrary: pv)
  case Nil
  then show ?case by simp
next
  case (Cons a as)
  then have "map_option prev (N' a) = map_option prev (N a)" by simp
  with Cons show ?case by (cases "N a"; cases "N' a") auto
qed

lemma back_links_append:
  "back_links N pv (xs @ ys) =
     (back_links N pv xs \<and> back_links N (if xs = [] then pv else Some (last xs)) ys)"
  by (induction xs arbitrary: pv) (auto split: option.splits)

lemma dlist_middle:
  assumes "path N root (pre @ a # post) None" and "back_links N None (pre @ a # post)"
  shows "\<exists>na. N a = Some na \<and>
           prev na = (if pre = [] then None else Some (last pre)) \<and>
           next na = (case post of [] \<Rightarrow> None | c # _ \<Rightarrow> Some c) \<and>
           path N (next na) post None \<and> back_links N (Some a) post"
  using assms
  by (auto simp: path_append back_links_append split: option.splits list.splits)

lemma dlist_before:
  assumes "path N root (ps @ p # a # post) None"
  shows "\<exists>np. N p = Some np \<and> next np = Some a \<and> path N root ps (Some p)"
  using assms by (auto simp: path_append split: option.splits)

lemma dlist_after:
  assumes "path N root (pre @ a # c # cs) None" and "back_links N None (pre @ a # c # cs)"
  shows "\<exists>nc. N c = Some nc \<and> prev nc = Some a"
  using assms by (auto simp: path_append back_links_append split: option.splits)

lemma unlink_path:
  assumes p: "path N root (pre @ a # post) None"
    and na: "N a = Some na"
    and nx: "\<forall>x \<in> set pre \<union> set post. map_option next (N' x) =
               (if pre \<noteq> [] \<and> x = last pre then Some (next na) else map_option next (N x))"
  shows "path N' (if pre = [] then next na else root) (pre @ post) None"
proof -
  have dist: "distinct (pre @ a # post)" using p by (rule path_distinct)
  from p na have post: "path N (next na) post None"
    by (auto simp: path_append)
  have "\<forall>x \<in> set post. map_option next (N' x) = map_option next (N x)"
    using nx dist by (cases pre rule: rev_cases) auto
  from path_cong [OF this] post have post': "path N' (next na) post None"
    by simp
  show ?thesis
  proof (cases pre rule: rev_cases)
    case Nil
    with post' show ?thesis by simp
  next
    case (snoc ps q)
    with p have ps: "path N root ps (Some q)"
      by (auto simp: path_append split: option.splits)
    have "\<forall>x \<in> set ps. map_option next (N' x) = map_option next (N x)"
      using nx dist snoc by auto
    from path_cong [OF this] ps have ps': "path N' root ps (Some q)" by simp
    from nx snoc have "map_option next (N' q) = Some (next na)" by simp
    then obtain nq where "N' q = Some nq" "next nq = next na" by auto
    with ps' post' snoc show ?thesis by (auto simp: path_append)
  qed
qed

lemma unlink_back_links:
  assumes p: "path N root (pre @ a # post) None"
    and b: "back_links N None (pre @ a # post)"
    and na: "N a = Some na"
    and pv: "\<forall>x \<in> set pre \<union> set post. map_option prev (N' x) =
               (if post \<noteq> [] \<and> x = hd post then Some (prev na) else map_option prev (N x))"
  shows "back_links N' None (pre @ post)"
proof -
  have dist: "distinct (pre @ a # post)" using p by (rule path_distinct)
  let ?lp = "if pre = [] then None else Some (last pre)"
  from b na have pre: "back_links N None pre" and pna: "prev na = ?lp"
    and post: "back_links N (Some a) post"
    by (auto simp: back_links_append)
  have "\<forall>x \<in> set pre. map_option prev (N' x) = map_option prev (N x)"
    using pv dist by (cases post) auto
  from back_links_cong [OF this] pre have pre': "back_links N' None pre" by simp
  have "back_links N' ?lp post"
  proof (cases post)
    case Nil
    then show ?thesis by simp
  next
    case (Cons c cs)
    with post obtain nc where "N c = Some nc" "back_links N (Some c) cs"
      by (auto split: option.splits)
    have "\<forall>x \<in> set cs. map_option prev (N' x) = map_option prev (N x)"
      using pv dist Cons by auto
    from back_links_cong [OF this] \<open>back_links N (Some c) cs\<close>
    have cs': "back_links N' (Some c) cs" by simp
    from pv Cons have "map_option prev (N' c) = Some (prev na)" by simp
    then obtain nc' where "N' c = Some nc'" "prev nc' = prev na" by auto
    with cs' pna Cons show ?thesis by simp
  qed
  with pre' show ?thesis by (simp add: back_links_append)
qed

lemma stored_SomeD:
  "stored s a = Some P \<Longrightarrow>
     \<exists>n d h b. nodes s a = Some n \<and> data n = Some d \<and> datas s d = Some h \<and>
               payload h = Some b \<and> bufs s b = Some P \<and>
               holder s a = Some d \<and> buffer s a = Some b"
  by (auto simp: stored_def buffer_def holder_def split: option.splits)

lemma cells_frame:
  assumes "map_option data (nodes s' x) = map_option data (nodes s x)"
    and "datas s' = (datas s)(d := None)" and "bufs s' = (bufs s)(b := None)"
    and "holder s x \<noteq> Some d" and "buffer s x \<noteq> Some b"
  shows "holder s' x = holder s x \<and> buffer s' x = buffer s x \<and> stored s' x = stored s x"
proof -
  have h: "holder s' x = holder s x"
    using assms(1,2,4)
    by (cases "nodes s x"; cases "nodes s' x")
       (auto simp: holder_def split: option.splits)
  have b: "buffer s' x = buffer s x"
    using h assms(2,4) by (auto simp: buffer_def split: option.splits)
  have "stored s' x = stored s x"
    using b assms(3,5) by (auto simp: stored_def split: option.splits)
  with h b show ?thesis by simp
qed

lemma distinct_map_others:
  assumes "distinct (map f (pre @ a # post))" and "x \<in> set pre \<union> set post"
  shows "f x \<noteq> f a"
proof -
  from assms(1) have "f a \<notin> f ` (set pre \<union> set post)" by auto
  moreover from assms(2) have "f x \<in> f ` (set pre \<union> set post)" by (rule imageI)
  ultimately show ?thesis by metis
qed

lemma unlink_heap:
  assumes dl: "dlist s root (pre @ a # post)" and ow: "owned s (pre @ a # post)"
    and na: "nodes s a = Some na"
    and hd: "holder s a = Some d" and bf: "buffer s a = Some b"
    and s': "nodes s' = N'" "datas s' = (datas s)(d := None)" "bufs s' = (bufs s)(b := None)"
    and gone: "N' a = None"
    and nx: "\<forall>x \<in> set pre \<union> set post. map_option next (N' x) =
               (if pre \<noteq> [] \<and> x = last pre then Some (next na) else map_option next (nodes s x))"
    and pv: "\<forall>x \<in> set pre \<union> set post. map_option prev (N' x) =
               (if post \<noteq> [] \<and> x = hd post then Some (prev na) else map_option prev (nodes s x))"
    and dt: "\<forall>x \<in> set pre \<union> set post. map_option data (N' x) = map_option data (nodes s x)"
  shows "dlist s' (if pre = [] then next na else root) (pre @ post) \<and>
         owned s' (pre @ post) \<and>
         (\<forall>x \<in> set (pre @ post).
            holder s' x = holder s x \<and> buffer s' x = buffer s x \<and> stored s' x = stored s x) \<and>
         nodes s' a = None"
proof -
  from dl have p: "path (nodes s) root (pre @ a # post) None"
    and b: "back_links (nodes s) None (pre @ a # post)" by (simp_all add: dlist_def)
  have dl': "dlist s' (if pre = [] then next na else root) (pre @ post)"
    unfolding dlist_def s'(1)
    using unlink_path [OF p na nx] unlink_back_links [OF p b na pv] by simp
  from ow have dh: "distinct (map (holder s) (pre @ a # post))"
    and db: "distinct (map (buffer s) (pre @ a # post))" by (simp_all add: owned_def)
  have frame: "holder s' x = holder s x \<and> buffer s' x = buffer s x \<and> stored s' x = stored s x"
    if x: "x \<in> set pre \<union> set post" for x
  proof (rule cells_frame)
    show "map_option data (nodes s' x) = map_option data (nodes s x)"
      using dt x s'(1) by simp
    show "datas s' = (datas s)(d := None)" by (rule s'(2))
    show "bufs s' = (bufs s)(b := None)" by (rule s'(3))
    show "holder s x \<noteq> Some d" using distinct_map_others [OF dh x] hd by simp
    show "buffer s x \<noteq> Some b" using distinct_map_others [OF db x] bf by simp
  qed
  have eqh: "map (holder s') (pre @ post) = map (holder s) (pre @ post)"
    and eqb: "map (buffer s') (pre @ post) = map (buffer s) (pre @ post)"
    using frame by auto
  from dh db have "distinct (map (holder s) (pre @ post))"
    and "distinct (map (buffer s) (pre @ post))" by auto
  then have "distinct (map (holder s') (pre @ post))"
    and "distinct (map (buffer s') (pre @ post))" by (simp_all only: eqh eqb)
  moreover have "\<forall>x \<in> set (pre @ post). stored s' x \<noteq> None"
    using ow frame by (auto simp: owned_def)
  ultimately have "owned s' (pre @ post)" by (simp add: owned_def)
  with dl' frame gone s'(1) show ?thesis by auto
qed

lemma del_node_only:
  assumes "nodes s a = Some na" "data na = Some d" "datas s d = Some h" "payload h = Some b"
    "bufs s b = Some P" "prev na = None" "next na = None"
  shows "del_node s root a =
    Inr (None, s\<lparr>nodes := (nodes s)(a := None), datas := (datas s)(d := None),
                 bufs := (bufs s)(b := None)\<rparr>)"
  using assms by (simp add: del_node_def free_node_def heap_ops)

lemma del_node_first:
  assumes "nodes s a = Some na" "data na = Some d" "datas s d = Some h" "payload h = Some b"
    "bufs s b = Some P" "prev na = None" "next na = Some c" "nodes s c = Some nc" "c \<noteq> a"
  shows "del_node s root a =
    Inr (Some c, s\<lparr>nodes := (nodes s)(c \<mapsto> nc\<lparr>prev := None\<rparr>, a := None),
                   datas := (datas s)(d := None), bufs := (bufs s)(b := None)\<rparr>)"
  using assms by (simp add: del_node_def free_node_def heap_ops)

lemma del_node_inner:
  assumes "nodes s a = Some na" "data na = Some d" "datas s d = Some h" "payload h = Some b"
    "bufs s b = Some P" "prev na = Some p" "next na = Some c" "nodes s c = Some nc" "c \<noteq> a"
    "nodes s p = Some np" "p \<noteq> a" "p \<noteq> c"
  shows "del_node s root a =
    Inr (root, s\<lparr>nodes := (nodes s)(c \<mapsto> nc\<lparr>prev := Some p\<rparr>,
                                     p \<mapsto> np\<lparr>next := Some c\<rparr>, a := None),
                 datas := (datas s)(d := None), bufs := (bufs s)(b := None)\<rparr>)"
  using assms by (simp add: del_node_def free_node_def heap_ops)

lemma del_node_last:
  assumes "nodes s a = Some na" "data na = Some d" "datas s d = Some h" "payload h = Some b"
    "bufs s b = Some P" "prev na = Some p" "next na = None"
    "nodes s p = Some np" "p \<noteq> a"
  shows "del_node s root a =
    Inr (root, s\<lparr>nodes := (nodes s)(p \<mapsto> np\<lparr>next := None\<rparr>, a := None),
                 datas := (datas s)(d := None), bufs := (bufs s)(b := None)\<rparr>)"
  using assms by (simp add: del_node_def free_node_def heap_ops)

lemma del_node_dlist:
  assumes dl: "dlist s root (pre @ a # post)" and ow: "owned s (pre @ a # post)"
  shows "\<exists>s'. del_node s root a =
                Inr (if pre = [] then (case post of [] \<Rightarrow> None | c # _ \<Rightarrow> Some c) else root, s') \<and>
              dlist s' (if pre = [] then (case post of [] \<Rightarrow> None | c # _ \<Rightarrow> Some c) else root)
                (pre @ post) \<and>
              owned s' (pre @ post) \<and>
              (\<forall>x \<in> set (pre @ post).
                 holder s' x = holder s x \<and> buffer s' x = buffer s x \<and>
                 stored s' x = stored s x) \<and>
              nodes s' a = None"
proof -
  let ?N = "nodes s"
  from dl have p: "path ?N root (pre @ a # post) None"
    and bl: "back_links ?N None (pre @ a # post)" by (simp_all add: dlist_def)
  have dist: "distinct (pre @ a # post)" using p by (rule path_distinct)
  from owned_stored [OF ow, of a] obtain P where "stored s a = Some P" by auto
  from stored_SomeD [OF this] obtain na d h b where
    na: "?N a = Some na" and cell: "data na = Some d" "datas s d = Some h" "payload h = Some b"
      "bufs s b = Some P" and hd: "holder s a = Some d" and bf: "buffer s a = Some b"
    by blast
  from dlist_middle [OF p bl] na
  have pv: "prev na = (if pre = [] then None else Some (last pre))"
    and nx: "next na = (case post of [] \<Rightarrow> None | c # _ \<Rightarrow> Some c)" by auto
  let ?root' = "if pre = [] then next na else root"
  have root': "?root' = (if pre = [] then (case post of [] \<Rightarrow> None | c # _ \<Rightarrow> Some c) else root)"
    using nx by simp
  let ?fin = "\<lambda>N'. s\<lparr>nodes := N', datas := (datas s)(d := None), bufs := (bufs s)(b := None)\<rparr>"
  have fin: "dlist (?fin N') ?root' (pre @ post) \<and> owned (?fin N') (pre @ post) \<and>
      (\<forall>x \<in> set (pre @ post). holder (?fin N') x = holder s x \<and>
          buffer (?fin N') x = buffer s x \<and> stored (?fin N') x = stored s x) \<and>
      nodes (?fin N') a = None"
    if "N' a = None"
      and "\<forall>x \<in> set pre \<union> set post. map_option next (N' x) =
             (if pre \<noteq> [] \<and> x = last pre then Some (next na) else map_option next (?N x))"
      and "\<forall>x \<in> set pre \<union> set post. map_option prev (N' x) =
             (if post \<noteq> [] \<and> x = hd post then Some (prev na) else map_option prev (?N x))"
      and "\<forall>x \<in> set pre \<union> set post. map_option data (N' x) = map_option data (?N x)"
    for N'
    by (rule unlink_heap [OF dl ow na hd bf _ _ _ that]) simp_all
  show ?thesis
  proof (cases pre rule: rev_cases)
    case Nil
    note pre = Nil
    show ?thesis
    proof (cases post)
      case Nil
      let ?N' = "?N(a := None)"
      from na cell pv nx pre Nil have "del_node s root a = Inr (None, ?fin ?N')"
        by (simp add: del_node_only)
      moreover have "dlist (?fin ?N') ?root' (pre @ post) \<and> owned (?fin ?N') (pre @ post) \<and>
        (\<forall>x \<in> set (pre @ post). holder (?fin ?N') x = holder s x \<and>
          buffer (?fin ?N') x = buffer s x \<and> stored (?fin ?N') x = stored s x) \<and>
        nodes (?fin ?N') a = None"
        using pre Nil by (intro fin) simp_all
      ultimately show ?thesis unfolding root' using pre Nil by auto
    next
      case (Cons c cs)
      from dlist_after [of ?N root pre a c cs] p bl Cons obtain nc
        where nc: "?N c = Some nc" by auto
      from dist Cons have ca: "c \<noteq> a" by auto
      let ?N' = "?N(c \<mapsto> nc\<lparr>prev := None\<rparr>, a := None)"
      from na cell pv nx pre Cons nc ca have "del_node s root a = Inr (Some c, ?fin ?N')"
        by (simp add: del_node_first)
      moreover have "dlist (?fin ?N') ?root' (pre @ post) \<and> owned (?fin ?N') (pre @ post) \<and>
        (\<forall>x \<in> set (pre @ post). holder (?fin ?N') x = holder s x \<and>
          buffer (?fin ?N') x = buffer s x \<and> stored (?fin ?N') x = stored s x) \<and>
        nodes (?fin ?N') a = None"
        using pre Cons dist nc pv by (intro fin) auto
      ultimately show ?thesis unfolding root' using pre Cons by auto
    qed
  next
    case (snoc ps q)
    note pre = snoc
    from dlist_before [of ?N root ps q a post] p pre obtain nq
      where nq: "?N q = Some nq" by auto
    from dist pre have qa: "q \<noteq> a" by auto
    show ?thesis
    proof (cases post)
      case Nil
      let ?N' = "?N(q \<mapsto> nq\<lparr>next := None\<rparr>, a := None)"
      from na cell pv nx pre Nil nq qa have "del_node s root a = Inr (root, ?fin ?N')"
        by (simp add: del_node_last)
      moreover have "dlist (?fin ?N') ?root' (pre @ post) \<and> owned (?fin ?N') (pre @ post) \<and>
        (\<forall>x \<in> set (pre @ post). holder (?fin ?N') x = holder s x \<and>
          buffer (?fin ?N') x = buffer s x \<and> stored (?fin ?N') x = stored s x) \<and>
        nodes (?fin ?N') a = None"
        using pre Nil dist nq nx by (intro fin) auto
      ultimately show ?thesis unfolding root' using pre Nil by auto
    next
      case (Cons c cs)
      from dlist_after [of ?N root pre a c cs] p bl Cons obtain nc
        where nc: "?N c = Some nc" by auto
      from dist Cons pre have ca: "c \<noteq> a" and qc: "q \<noteq> c" by auto
      let ?N' = "?N(c \<mapsto> nc\<lparr>prev := Some q\<rparr>, q \<mapsto> nq\<lparr>next := Some c\<rparr>, a := None)"
      from na cell pv nx pre Cons nc ca nq qa qc
      have "del_node s root a = Inr (root, ?fin ?N')"
        by (simp add: del_node_inner)
      moreover have "dlist (?fin ?N') ?root' (pre @ post) \<and> owned (?fin ?N') (pre @ post) \<and>
        (\<forall>x \<in> set (pre @ post). holder (?fin ?N') x = holder s x \<and>
          buffer (?fin ?N') x = buffer s x \<and> stored (?fin ?N') x = stored s x) \<and>
        nodes (?fin ?N') a = None"
        using pre Cons dist nc nq nx pv by (intro fin) auto
      ultimately show ?thesis unfolding root' using pre Cons by auto
    qed
  qed
qed

section \<open>Search and deletion\<close>

lemma list_del_loop_find:
  assumes "path (nodes s) p as None"
    and "\<forall>x \<in> set as. node_matches s x pl sz = Inr (M x)"
  shows "list_del_loop s root p pl sz =
           Some (case find M as of None \<Rightarrow> Inl AssertFailed | Some a \<Rightarrow> del_node s root a)"
  using assms
proof (induction as arbitrary: p)
  case Nil
  then show ?case by (subst list_del_loop.simps) simp
next
  case (Cons x as)
  then obtain n where n: "p = Some x" "nodes s x = Some n" "path (nodes s) (next n) as None"
    by (auto split: option.splits)
  from Cons.IH [OF n(3)] Cons.prems(2) n(1,2) show ?case
    by (subst list_del_loop.simps) simp
qed

lemma list_search_find:
  assumes "path (nodes s) p as None"
    and "\<forall>x \<in> set as. node_matches s x pl sz = Inr (M x)"
  shows "list_search s p pl sz = Some (Inr (find M as))"
  using assms
proof (induction as arbitrary: p)
  case Nil
  then show ?case by (subst list_search.simps) simp
next
  case (Cons x as)
  then obtain n where n: "p = Some x" "nodes s x = Some n" "path (nodes s) (next n) as None"
    by (auto split: option.splits)
  from Cons.IH [OF n(3)] Cons.prems(2) n(1,2) show ?case
    by (subst list_search.simps) simp
qed

lemma find_first: "\<forall>x \<in> set pre. \<not> M x \<Longrightarrow> M a \<Longrightarrow> find M (pre @ a # post) = Some a"
  by (induction pre) auto

lemma list_del_find:
  assumes "path (nodes s) root as None" and "\<forall>x \<in> set as. readable s sz x"
    and "bufs s q = Some B" and "sz \<le> length B"
  shows "list_del s root (Some q) sz =
           Some (case find (matches s B sz) as of
                   None \<Rightarrow> Inl AssertFailed | Some a \<Rightarrow> del_node s root a)"
  unfolding list_del_def
  using assms by (intro list_del_loop_find) (auto simp: node_matches_readable)

lemma list_del_loop_hit:
  assumes "path (nodes s) p pre (Some a)"
    and "\<forall>x \<in> set pre. node_matches s x pl sz = Inr False"
    and "node_matches s a pl sz = Inr True"
  shows "list_del_loop s root p pl sz = Some (del_node s root a)"
  using assms
proof (induction pre arbitrary: p)
  case Nil
  then show ?case by (subst list_del_loop.simps) simp
next
  case (Cons x pre)
  then obtain n where n: "p = Some x" "nodes s x = Some n" "path (nodes s) (next n) pre (Some a)"
    by (auto split: option.splits)
  from Cons.IH [OF n(3)] Cons.prems(2,3) n(1,2) show ?case
    by (subst list_del_loop.simps) simp
qed

lemma path_upto: "path N p (pre @ a # post) q \<Longrightarrow> path N p pre (Some a)"
  by (auto simp: path_append)

lemma path_last:
  "path N r (xs @ [x]) None \<Longrightarrow> \<exists>n. N x = Some n \<and> next n = None"
  by (auto simp: path_append split: option.splits)

lemma back_links_first:
  "back_links N pv (x # xs) \<Longrightarrow> \<exists>n. N x = Some n \<and> prev n = pv"
  by (auto split: option.splits)

lemma with_sizes_cells:
  "nodes (with_sizes g s) = nodes s" "bufs (with_sizes g s) = bufs s"
  "holder (with_sizes g s) = holder s" "buffer (with_sizes g s) = buffer s"
  "stored (with_sizes g s) = stored s"
proof -
  show n: "nodes (with_sizes g s) = nodes s" and b: "bufs (with_sizes g s) = bufs s"
    by (simp_all add: with_sizes_def)
  show h: "holder (with_sizes g s) = holder s"
    by (rule ext) (auto simp: holder_def with_sizes_def split: option.splits)
  have d: "datas (with_sizes g s) d = map_option (\<lambda>h. h\<lparr>size_d := g d\<rparr>) (datas s d)" for d
    by (simp add: with_sizes_def)
  show bf: "buffer (with_sizes g s) = buffer s"
    by (rule ext) (auto simp: buffer_def h d split: option.splits)
  show "stored (with_sizes g s) = stored s"
    by (rule ext) (simp add: stored_def bf b split: option.splits)
qed

lemma with_sizes_readable: "readable (with_sizes g s) sz = readable s sz"
  by (rule ext) (simp add: readable_def with_sizes_cells)

lemma with_sizes_matches: "matches (with_sizes g s) B sz = matches s B sz"
  by (rule ext) (simp add: matches_def with_sizes_cells)

lemma list_search_matches:
  assumes "path (nodes s) root as None" and "\<forall>x \<in> set as. readable s sz x"
    and "bufs s q = Some B" and "sz \<le> length B"
  shows "list_search s root (Some q) sz = Some (Inr (find (matches s B sz) as))"
  using assms by (intro list_search_find) (auto simp: node_matches_readable)

lemma find_size_zero:
  assumes "path (nodes s) root as None" and "\<forall>x \<in> set as. readable s 0 x"
  shows "find (matches s B 0) as = root"
proof (cases as)
  case Nil
  with assms(1) show ?thesis by simp
next
  case (Cons x xs)
  with assms(2) have "matches s B 0 x"
    by (auto simp: matches_def readable_def split: option.splits)
  with Cons assms(1) show ?thesis by (auto split: option.splits)
qed

text \<open>
  C4.  On a well-linked list \<open>as\<close> whose payloads and the caller's buffer \<open>B\<close> can be
  compared over \<open>sz\<close> bytes, \<open>list_del\<close> ends in the failing \<open>assert(0)\<close> if and only if no
  node of the list matches \<open>B\<close>.
\<close>

theorem list_del_miss_asserts:
  assumes "dlist s root as" and "owned s as" and "\<forall>x \<in> set as. readable s sz x"
    and "bufs s q = Some B" and "sz \<le> length B"
  shows "(list_del s root (Some q) sz = Some (Inl AssertFailed)) =
           (\<forall>a \<in> set as. \<not> matches s B sz a)"
proof (cases "\<exists>a \<in> set as. matches s B sz a")
  case False
  then have "find (matches s B sz) as = None" by (simp add: find_None_iff)
  with list_del_find [OF _ assms(3,4,5), of root] assms(1) False show ?thesis
    by (simp add: dlist_def)
next
  case True
  from split_list_first_prop [OF this] obtain pre a post where
    as: "as = pre @ a # post" and a: "matches s B sz a"
    and pre: "\<forall>x \<in> set pre. \<not> matches s B sz x" by blast
  from assms(1) as have p: "path (nodes s) root (pre @ a # post) None" by (simp add: dlist_def)
  have "list_del s root (Some q) sz = Some (del_node s root a)"
    using list_del_find [OF p _ assms(4,5)] assms(3) as find_first [OF pre a, of post] by simp
  moreover from del_node_dlist [of s root pre a post] assms(1,2) as
  obtain r s' where "del_node s root a = Inr (r, s')" by blast
  ultimately show ?thesis using True by simp
qed

theorem list_del_miss_asserts_witness:
  "dlist heap2 (Some 6) [6, 7] \<and> owned heap2 [6, 7] \<and>
   readable heap2 1 6 \<and> readable heap2 1 7 \<and> bufs heap2 3 = Some [15] \<and>
   \<not> matches heap2 [15] 1 6 \<and> \<not> matches heap2 [15] 1 7 \<and>
   list_del heap2 (Some 6) (Some 3) 1 = Some (Inl AssertFailed)"
proof -
  have h: "dlist heap2 (Some 6) [6, 7]" "owned heap2 [6, 7]"
    "\<forall>x \<in> set [6, 7]. readable heap2 1 x"
    "bufs heap2 3 = Some [15]" "1 \<le> length [15::byte]"
    by (simp_all add: dlist_def owned_def readable_def stored_def buffer_def holder_def
        heap2_def)
  have m: "\<not> matches heap2 [15] 1 6" "\<not> matches heap2 [15] 1 7"
    by (simp_all add: matches_def stored_def buffer_def holder_def heap2_def)
  with list_del_miss_asserts [OF h] h show ?thesis by simp
qed

text \<open>
  C3.  Let the well-linked list consist of the nodes \<open>pre\<close>, then \<open>a\<close>, then \<open>post\<close>, where
  \<open>a\<close> matches the buffer \<open>B\<close> over \<open>sz\<close> bytes and no node of \<open>pre\<close> does (the nodes up to
  \<open>a\<close> storing at least \<open>sz\<close> bytes each).  Then \<open>list_del\<close> returns normally; the nodes
  \<open>pre @ post\<close> form a well-linked list from the returned root, in their old order and
  with their holders, buffers and stored bytes unchanged; the node \<open>a\<close> is freed.  The
  returned root is the old one unless \<open>a\<close> was the root; then it is the successor of \<open>a\<close>,
  whose \<open>prev\<close> is now \<open>NULL\<close>, or \<open>NULL\<close> when \<open>a\<close> was the only node.  When \<open>a\<close> was the last
  of several nodes, the \<open>next\<close> of the new last node is \<open>NULL\<close>.
\<close>

theorem list_del_removes_first_match:
  assumes "dlist s root (pre @ a # post)" and "owned s (pre @ a # post)"
    and "bufs s q = Some B" and "sz \<le> length B"
    and "\<forall>x \<in> set pre. readable s sz x \<and> \<not> matches s B sz x"
    and "readable s sz a" and "matches s B sz a"
  shows "\<exists>root' s'. list_del s root (Some q) sz = Some (Inr (root', s')) \<and>
           root' = (if pre = [] then (case post of [] \<Rightarrow> None | c # _ \<Rightarrow> Some c) else root) \<and>
           dlist s' root' (pre @ post) \<and> owned s' (pre @ post) \<and>
           (\<forall>x \<in> set (pre @ post).
              holder s' x = holder s x \<and> buffer s' x = buffer s x \<and>
              stored s' x = stored s x) \<and>
           nodes s' a = None \<and>
           (case post of [] \<Rightarrow> True
            | c # _ \<Rightarrow> pre = [] \<longrightarrow> (\<exists>n. nodes s' c = Some n \<and> prev n = None)) \<and>
           (post = [] \<and> pre \<noteq> [] \<longrightarrow> (\<exists>n. nodes s' (last pre) = Some n \<and> next n = None))"
proof -
  let ?root' = "if pre = [] then (case post of [] \<Rightarrow> None | c # _ \<Rightarrow> Some c) else root"
  from assms(1) have "path (nodes s) root (pre @ a # post) None" by (simp add: dlist_def)
  then have p: "path (nodes s) root pre (Some a)" by (rule path_upto)
  have "\<forall>x \<in> set pre. node_matches s x (Some q) sz = Inr False"
    using assms(3,4,5) by (simp add: node_matches_readable)
  moreover have "node_matches s a (Some q) sz = Inr True"
    using assms(3,4,6,7) by (simp add: node_matches_readable)
  ultimately have "list_del s root (Some q) sz = Some (del_node s root a)"
    unfolding list_del_def using p by (intro list_del_loop_hit)
  moreover from del_node_dlist [OF assms(1,2)] obtain s' where
    d: "del_node s root a = Inr (?root', s')"
    and dl: "dlist s' ?root' (pre @ post)" and ow: "owned s' (pre @ post)"
    and fr: "\<forall>x \<in> set (pre @ post).
              holder s' x = holder s x \<and> buffer s' x = buffer s x \<and> stored s' x = stored s x"
    and gone: "nodes s' a = None" by blast
  moreover have "case post of [] \<Rightarrow> True
      | c # _ \<Rightarrow> pre = [] \<longrightarrow> (\<exists>n. nodes s' c = Some n \<and> prev n = None)"
    using dl back_links_first [of "nodes s'" None] by (auto simp: dlist_def split: list.splits)
  moreover have "post = [] \<and> pre \<noteq> [] \<longrightarrow> (\<exists>n. nodes s' (last pre) = Some n \<and> next n = None)"
  proof
    assume h: "post = [] \<and> pre \<noteq> []"
    then have "pre = butlast pre @ [last pre]" by simp
    with dl h have "path (nodes s') ?root' (butlast pre @ [last pre]) None"
      by (simp add: dlist_def)
    then show "\<exists>n. nodes s' (last pre) = Some n \<and> next n = None" by (rule path_last)
  qed
  ultimately show ?thesis by auto
qed

theorem list_del_removes_first_match_witness:
  "dlist heap2 (Some 6) ([6] @ 7 # []) \<and> owned heap2 ([6] @ 7 # []) \<and>
   bufs heap2 2 = Some [20] \<and> readable heap2 1 6 \<and> \<not> matches heap2 [20] 1 6 \<and>
   readable heap2 1 7 \<and> matches heap2 [20] 1 7 \<and>
   (\<exists>s'. list_del heap2 (Some 6) (Some 2) 1 = Some (Inr (Some 6, s')) \<and>
         dlist s' (Some 6) [6] \<and> stored s' 6 = Some [10] \<and> nodes s' 7 = None \<and>
         (\<exists>n. nodes s' 6 = Some n \<and> next n = None))"
proof -
  have h: "dlist heap2 (Some 6) ([6] @ 7 # [])" "owned heap2 ([6] @ 7 # [])"
    "bufs heap2 2 = Some [20]" "1 \<le> length [20::byte]"
    "\<forall>x \<in> set [6]. readable heap2 1 x \<and> \<not> matches heap2 [20] 1 x"
    "readable heap2 1 7" "matches heap2 [20] 1 7"
    by (simp_all add: dlist_def owned_def readable_def matches_def stored_def buffer_def
        holder_def heap2_def)
  have "stored heap2 6 = Some [10]"
    by (simp add: stored_def buffer_def holder_def heap2_def)
  with list_del_removes_first_match [OF h] h show ?thesis by auto
qed

text \<open>
  C10.  On a list \<open>as\<close> whose payloads and the caller's buffer \<open>B\<close> can be compared over \<open>sz\<close>
  bytes, \<open>list_search\<close> returns the first node whose first \<open>sz\<close> stored bytes equal the
  first \<open>sz\<close> bytes of \<open>B\<close> (\<open>NULL\<close> if there is none), and \<open>list_del\<close> unlinks that same
  node (or fails its assertion if there is none).  Replacing the \<open>size\<close> attribute of
  every holder by arbitrary values changes neither the result of the search nor the
  node that is deleted.  With \<open>sz = 0\<close> the search returns the reference it was given.
  The example is a node storing two bytes that is found by a search over one byte.
\<close>

theorem match_ignores_stored_size:
  assumes "path (nodes s) root as None" and "\<forall>x \<in> set as. readable s sz x"
    and "bufs s q = Some B" and "sz \<le> length B"
  shows "list_search s root (Some q) sz = Some (Inr (find (matches s B sz) as)) \<and>
         list_del s root (Some q) sz =
           Some (case find (matches s B sz) as of
                   None \<Rightarrow> Inl AssertFailed | Some a \<Rightarrow> del_node s root a) \<and>
         list_search (with_sizes g s) root (Some q) sz = list_search s root (Some q) sz \<and>
         list_del (with_sizes g s) root (Some q) sz =
           Some (case find (matches s B sz) as of
                   None \<Rightarrow> Inl AssertFailed | Some a \<Rightarrow> del_node (with_sizes g s) root a) \<and>
         (sz = 0 \<longrightarrow> list_search s root (Some q) sz = Some (Inr root))"
proof -
  let ?s = "with_sizes g s"
  have a': "path (nodes ?s) root as None" "\<forall>x \<in> set as. readable ?s sz x"
    "bufs ?s q = Some B"
    using assms by (simp_all add: with_sizes_cells with_sizes_readable)
  have A: "list_search s root (Some q) sz = Some (Inr (find (matches s B sz) as))"
    using assms by (rule list_search_matches)
  have B: "list_del s root (Some q) sz =
      Some (case find (matches s B sz) as of
              None \<Rightarrow> Inl AssertFailed | Some a \<Rightarrow> del_node s root a)"
    using assms by (rule list_del_find)
  have C: "list_search ?s root (Some q) sz = Some (Inr (find (matches s B sz) as))"
    using list_search_matches [OF a' assms(4)] by (simp add: with_sizes_matches)
  have D: "list_del ?s root (Some q) sz =
      Some (case find (matches s B sz) as of
              None \<Rightarrow> Inl AssertFailed | Some a \<Rightarrow> del_node ?s root a)"
    using list_del_find [OF a' assms(4)] by (simp add: with_sizes_matches)
  have E: "list_search s root (Some q) sz = Some (Inr root)" if "sz = 0"
    using A assms(1,2) that by (simp add: find_size_zero)
  from A B C D E show ?thesis by simp
qed

theorem match_ignores_stored_size_witness:
  "path (nodes heap_wide) (Some 6) [6] None \<and> readable heap_wide 1 6 \<and>
   bufs heap_wide 1 = Some [10] \<and> stored heap_wide 6 = Some [10, 11] \<and>
   datas heap_wide 4 = Some \<lparr>payload = Some 5, size_d = 2\<rparr> \<and>
   list_search heap_wide (Some 6) (Some 1) 1 = Some (Inr (Some 6)) \<and>
   list_search (with_sizes (\<lambda>_. 7) heap_wide) (Some 6) (Some 1) 1 = Some (Inr (Some 6)) \<and>
   list_del heap_wide (Some 6) (Some 1) 1 = Some (del_node heap_wide (Some 6) 6)"
proof -
  have h: "path (nodes heap_wide) (Some 6) [6] None" "\<forall>x \<in> set [6]. readable heap_wide 1 x"
    "bufs heap_wide 1 = Some [10]" "1 \<le> length [10::byte]"
    by (simp_all add: readable_def stored_def buffer_def holder_def heap_wide_def)
  have m: "stored heap_wide 6 = Some [10, 11]" "matches heap_wide [10] 1 6"
    "datas heap_wide 4 = Some \<lparr>payload = Some 5, size_d = 2\<rparr>"
    by (simp_all add: matches_def stored_def buffer_def holder_def heap_wide_def)
  with match_ignores_stored_size [OF h, of "\<lambda>_. 7"] h show ?thesis by simp
qed

end
